theory Spec2Isabelle
  imports Main "HOL-Library.Char_ord"
begin

section \<open>The regular expressions of \<^verbatim>\<open>scripts/dependency_version.py\<close>\<close>

text \<open>
  The script uses Python's \<^verbatim>\<open>re\<close> module on two patterns. Both are built from three
  constructs only: the anchor \<^verbatim>\<open>^\<close> (compiled with \<^verbatim>\<open>re.MULTILINE\<close>), literal text, and
  a capturing group around a greedy star of a character set, \<^verbatim>\<open>([...]*)\<close>. Text is a
  \<^typ>\<open>string\<close>; the patterns only test characters against ASCII letters, digits and
  punctuation.
\<close>

definition newline :: char where
  "newline = CHR 0x0A"

text \<open>A member of a character set \<^verbatim>\<open>[...]\<close>: one character, or a range such as \<^verbatim>\<open>a-z\<close>.\<close>

datatype item = Chr char | Rng char char

fun in_item :: "item \<Rightarrow> char \<Rightarrow> bool" where
  "in_item (Chr a) c = (c = a)"
| "in_item (Rng a b) c = (a \<le> c \<and> c \<le> b)"

definition in_set :: "item list \<Rightarrow> char \<Rightarrow> bool" where
  "in_set cs c = list_ex (\<lambda>i. in_item i c) cs"

text \<open>
  \<open>Bol\<close> is \<^verbatim>\<open>^\<close> under \<^verbatim>\<open>re.MULTILINE\<close>, \<open>Lit l\<close> the literal text \<open>l\<close>, and
  \<open>Group cs\<close> the group \<^verbatim>\<open>([cs]*)\<close>. A pattern is the list of its atoms.
\<close>

datatype atom = Bol | Lit string | Group "item list"

text \<open>
  The matcher is told whether the current position is at the beginning of a line:
  at the start of the text, or just after a newline. \<open>at_bol bol t\<close> is that flag after
  the text \<open>t\<close> has been consumed from a position whose flag was \<open>bol\<close>.
\<close>

definition at_bol :: "bool \<Rightarrow> string \<Rightarrow> bool" where
  "at_bol bol t = (if t = [] then bol else last t = newline)"

text \<open>
  A greedy star takes as many characters as the set allows and then gives them back one
  at a time until the rest of the pattern matches. \<open>greedy k rc rest\<close> tries the
  continuation \<open>k\<close> with the captured text \<open>rev rc\<close> before \<open>rest\<close>, and on failure
  moves the last captured character back to the front of \<open>rest\<close>.
\<close>

fun greedy :: "(string \<Rightarrow> string \<Rightarrow> (string list \<times> string) option) \<Rightarrow>
    string \<Rightarrow> string \<Rightarrow> (string list \<times> string) option" where
  "greedy k [] rest =
     (case k [] rest of Some (gs, r) \<Rightarrow> Some ([] # gs, r) | None \<Rightarrow> None)"
| "greedy k (c # rc) rest =
     (case k (rev (c # rc)) rest of
        Some (gs, r) \<Rightarrow> Some (rev (c # rc) # gs, r)
      | None \<Rightarrow> greedy k rc (c # rest))"

text \<open>
  \<open>match_atoms p bol s\<close> matches the pattern \<open>p\<close> at the start of \<open>s\<close>, as
  \<^verbatim>\<open>p.match\<close> does: the result is the text of the groups, in order, and the text after
  the match.
\<close>

primrec match_atoms :: "atom list \<Rightarrow> bool \<Rightarrow> string \<Rightarrow> (string list \<times> string) option" where
  "match_atoms [] bol s = Some ([], s)"
| "match_atoms (a # as) bol s =
     (case a of
        Bol \<Rightarrow> if bol then match_atoms as bol s else None
      | Lit l \<Rightarrow>
          if take (length l) s = l
          then match_atoms as (at_bol bol l) (drop (length l) s)
          else None
      | Group cs \<Rightarrow>
          greedy (\<lambda>cap. match_atoms as (at_bol bol cap))
            (rev (takeWhile (in_set cs) s)) (dropWhile (in_set cs) s))"

text \<open>\<^verbatim>\<open>match.group(n)\<close> for \<open>n \<ge> 1\<close>, on the list of a match's groups.\<close>

definition group :: "string list \<Rightarrow> nat \<Rightarrow> string" where
  "group gs n = gs ! (n - 1)"

text \<open>
  \<^verbatim>\<open>re.sub\<close> and \<^verbatim>\<open>findall\<close> share one loop: search for the leftmost match from the
  current position, record it, and go on from the end of the match. \<open>scan\<close> returns
  the text cut into the matches and the characters between them. After a match of no
  characters the loop moves on by one character.
\<close>

datatype piece = Text char | Match "string list"

function scan :: "atom list \<Rightarrow> bool \<Rightarrow> string \<Rightarrow> piece list" where
  "scan p bol s =
     (case match_atoms p bol s of
        Some (gs, rest) \<Rightarrow>
          if length rest < length s
          then Match gs # scan p (at_bol bol (take (length s - length rest) s)) rest
          else Match gs # (case s of [] \<Rightarrow> [] | c # cs \<Rightarrow> Text c # scan p (c = newline) cs)
      | None \<Rightarrow> (case s of [] \<Rightarrow> [] | c # cs \<Rightarrow> Text c # scan p (c = newline) cs))"
  by pat_completeness auto
termination
  by (relation "measure (\<lambda>(p, bol, s). length s)") auto

text \<open>
  \<^verbatim>\<open>pattern.findall(s)\<close> for a pattern with one group: the text of that group, for every
  match.
\<close>

fun found :: "piece \<Rightarrow> string list" where
  "found (Match gs) = [group gs 1]"
| "found (Text c) = []"

definition findall :: "atom list \<Rightarrow> string \<Rightarrow> string list" where
  "findall p s = concat (map found (scan p True s))"

text \<open>
  \<^verbatim>\<open>re.sub(pattern, repl, s)\<close> with a function \<open>repl\<close>: every match is replaced by what
  \<open>repl\<close> returns for it, and the text between the matches is kept.
\<close>

fun replaced :: "(string list \<Rightarrow> string) \<Rightarrow> piece \<Rightarrow> string" where
  "replaced repl (Match gs) = repl gs"
| "replaced repl (Text c) = [c]"

definition sub :: "atom list \<Rightarrow> (string list \<Rightarrow> string) \<Rightarrow> string \<Rightarrow> string" where
  "sub p repl s = concat (map (replaced repl) (scan p True s))"

section \<open>The script\<close>

text \<open>The three character sets of the patterns.\<close>

definition ident_set :: "item list" where
  "ident_set = [Rng CHR ''a'' CHR ''z'', Rng CHR ''A'' CHR ''Z'', Rng CHR ''0'' CHR ''9'',
                Chr CHR ''_'']"

definition path_set :: "item list" where
  "path_set = [Chr CHR ''.'', Chr CHR ''/'', Rng CHR ''a'' CHR ''z'', Rng CHR ''A'' CHR ''Z'',
               Rng CHR ''0'' CHR ''9'', Chr CHR ''_'']"

definition version_set :: "item list" where
  "version_set = [Chr CHR ''.'', Rng CHR ''a'' CHR ''z'', Rng CHR ''A'' CHR ''Z'',
                  Rng CHR ''0'' CHR ''9'', Chr CHR ''_'']"

definition dependencyPattern :: "atom list" where
  \<open>dependencyPattern =
     [Bol, Group ident_set, Lit '' = { path = "'', Group path_set,
      Lit ''", version = "'', Group version_set, Lit ''" }'']\<close>

definition versionPattern :: "atom list" where
  \<open>versionPattern = [Bol, Lit ''version = "'', Group version_set, Lit ''"'']\<close>

text \<open>
  The exceptions the script can end with: \<^verbatim>\<open>IndexError\<close> from indexing an empty list,
  \<^verbatim>\<open>FileNotFoundError\<close> from opening a file that is not there. In Python's hierarchy
  the first is a \<^verbatim>\<open>LookupError\<close>, the second an \<^verbatim>\<open>OSError\<close>.
\<close>

datatype py_error = IndexError | FileNotFoundError

fun is_LookupError :: "py_error \<Rightarrow> bool" where
  "is_LookupError IndexError = True"
| "is_LookupError FileNotFoundError = False"

text \<open>\<^verbatim>\<open>version = versionPattern.findall(data)[0]\<close>\<close>

definition version :: "string \<Rightarrow> py_error + string" where
  "version data = (case findall versionPattern data of [] \<Rightarrow> Inl IndexError | v # _ \<Rightarrow> Inr v)"

text \<open>The function \<^verbatim>\<open>replace\<close>, with the global \<^verbatim>\<open>version\<close> it reads as a parameter.\<close>

definition replace :: "string \<Rightarrow> string list \<Rightarrow> string" where
  \<open>replace v m = group m 1 @ '' = { path = "'' @ group m 2 @ ''", version = "'' @ v @ ''" }''\<close>

text \<open>\<^verbatim>\<open>newData = re.sub(dependencyPattern, replace, data)\<close>\<close>

definition newData :: "string \<Rightarrow> string \<Rightarrow> string" where
  "newData v data = sub dependencyPattern (replace v) data"

text \<open>
  Lines 10 to 15 of the script, from the text read to the text written: the
  transform of the text.
\<close>

definition transform :: "string \<Rightarrow> py_error + string" where
  "transform data = (case version data of Inl e \<Rightarrow> Inl e | Inr v \<Rightarrow> Inr (newData v data))"

text \<open>
  The whole script. The state is the file system, a map from a path to the text that
  reading the file returns; the script gets \<^verbatim>\<open>sys.argv\<close> and returns the exception it
  ended with, if any, and the file system it leaves. The file is opened for writing only
  in the last statement.

  The file system holds texts, not bytes: how \<^verbatim>\<open>open\<close> decodes the bytes of a file with
  the encoding of the locale and translates line endings, and the errors of the operating
  system other than a missing file, on reading and on writing, are outside this model. It
  says what the script does once \<^verbatim>\<open>f.read()\<close> has returned a text.
\<close>

type_synonym files = "string \<rightharpoonup> string"

definition script :: "string list \<Rightarrow> files \<Rightarrow> py_error option \<times> files" where
  "script argv fs =
     (case argv of
        _ # path # _ \<Rightarrow>
          (case fs path of
             None \<Rightarrow> (Some FileNotFoundError, fs)
           | Some data \<Rightarrow>
               (case transform data of
                  Inl e \<Rightarrow> (Some e, fs)
                | Inr new \<Rightarrow> (None, fs(path \<mapsto> new))))
      | _ \<Rightarrow> (Some IndexError, fs))"

section \<open>Lines\<close>

text \<open>
  The properties of the script are stated on the lines of the text: \<open>lines_of s\<close> is
  Python's \<^verbatim>\<open>s.split("\n")\<close>, and \<open>join_lines\<close> is \<^verbatim>\<open>"\n".join\<close>. A position is at the
  beginning of a line exactly when it starts one of these lines.
\<close>

fun lines_of :: "string \<Rightarrow> string list" where
  "lines_of [] = ['''']"
| "lines_of (c # cs) =
     (if c = newline then [] # lines_of cs
      else (case lines_of cs of l # ls \<Rightarrow> (c # l) # ls | [] \<Rightarrow> [c] # []))"

fun join_lines :: "string list \<Rightarrow> string" where
  "join_lines [] = []"
| "join_lines [l] = l"
| "join_lines (l # ls) = l @ newline # join_lines ls"

text \<open>
  What \<^verbatim>\<open>re.sub\<close> and \<^verbatim>\<open>findall\<close> do to one line, when the pattern can only match at
  the beginning of a line and within it.
\<close>

definition rewrite_line :: "atom list \<Rightarrow> (string list \<Rightarrow> string) \<Rightarrow> string \<Rightarrow> string" where
  "rewrite_line p repl l =
     (case match_atoms p True l of Some (gs, r) \<Rightarrow> repl gs @ r | None \<Rightarrow> l)"

definition found_in_line :: "atom list \<Rightarrow> string \<Rightarrow> string list" where
  "found_in_line p l = (case match_atoms p True l of Some (gs, r) \<Rightarrow> [group gs 1] | None \<Rightarrow> [])"

definition line_pieces :: "atom list \<Rightarrow> string \<Rightarrow> piece list" where
  "line_pieces p l =
     (case match_atoms p True l of Some (gs, r) \<Rightarrow> Match gs # map Text r | None \<Rightarrow> map Text l)"

text \<open>
  A pattern is anchored to lines when it matches only at the beginning of a line, its
  matches are not empty and hold no newline, and a match does not look beyond the end of
  the line.
\<close>

definition line_anchored :: "atom list \<Rightarrow> bool" where
  "line_anchored p \<longleftrightarrow>
     (\<forall>s. match_atoms p False s = None) \<and>
     (\<forall>s gs r. match_atoms p True s = Some (gs, r) \<longrightarrow>
        (\<exists>m. s = m @ r \<and> m \<noteq> [] \<and> newline \<notin> set m)) \<and>
     (\<forall>l t. newline \<notin> set l \<longrightarrow>
        match_atoms p True (l @ newline # t) =
          (case match_atoms p True l of Some (gs, r) \<Rightarrow> Some (gs, r @ newline # t) | None \<Rightarrow> None))"

text \<open>The text that each pattern matches, given the text of its groups.\<close>

definition dep_text :: "string \<Rightarrow> string \<Rightarrow> string \<Rightarrow> string" where
  \<open>dep_text i p v = i @ '' = { path = "'' @ p @ ''", version = "'' @ v @ ''" }''\<close>

definition version_text :: "string \<Rightarrow> string" where
  \<open>version_text v = ''version = "'' @ v @ ''"''\<close>

definition all_in :: "item list \<Rightarrow> string \<Rightarrow> bool" where
  "all_in cs t = list_all (in_set cs) t"

text \<open>Manifests to run the script on.\<close>

definition example_manifest :: string where
  \<open>example_manifest =
     ''version = "2.3.1"'' @ [newline] @
     ''foo = { path = "../foo", version = "2.3.0" }'' @ [newline] @
     ''bar = { path = "./bar", version = "2.3.0" } # local'' @ [newline] @
     ''unrelated_line = true'' @ [newline]\<close>

definition empty_version_manifest :: string where
  \<open>empty_version_manifest =
     ''[package]'' @ [newline] @
     ''version = ""'' @ [newline] @
     ''version = "1.0"'' @ [newline] @
     ''foo = { path = "../foo", version = "2.3.0" }''\<close>

definition no_version_manifest :: string where
  \<open>no_version_manifest =
     ''[package]'' @ [newline] @
     ''foo = { path = "../foo", version = "2.3.0" }'' @ [newline]\<close>

definition plain_manifest :: string where
  \<open>plain_manifest =
     ''[package]'' @ [newline] @
     ''version = "1.0"'' @ [newline] @
     '' foo = { path = "../foo", version = "2.3.0" }''\<close>

definition two_version_manifest :: string where
  \<open>two_version_manifest =
     ''[package]'' @ [newline] @
     ''version = "2.3.1" # current'' @ [newline] @
     ''version = "1.0"'' @ [newline] @
     ''foo = { path = "../foo", version = "2.3.0" }''\<close>

declare scan.simps [simp del]

section \<open>The matcher on the two patterns\<close>

lemma greedy_no_backtrack:
  assumes "\<And>c cap t. c \<in> set rc \<Longrightarrow> k cap (c # t) = None"
  shows "greedy k rc rest =
    (case k (rev rc) rest of Some (gs, r) \<Rightarrow> Some (rev rc # gs, r) | None \<Rightarrow> None)"
  using assms
proof (induction rc arbitrary: rest)
  case Nil
  show ?case by (simp split: option.splits)
next
  case (Cons c rc)
  have "greedy k rc (c # rest) = None"
    using Cons.IH [of "c # rest"] Cons.prems by simp
  then show ?case by (simp split: option.splits)
qed

lemma lit_fails_on:
  assumes "l \<noteq> []" and "c \<noteq> hd l"
  shows "match_atoms (Lit l # as) bol (c # t) = None"
  using assms by (cases l) auto

lemma group_lit:
  assumes "l \<noteq> []" and "\<not> in_set cs (hd l)"
  shows "match_atoms (Group cs # Lit l # as) bol s =
    (case match_atoms (Lit l # as) (at_bol bol (takeWhile (in_set cs) s)) (dropWhile (in_set cs) s) of
       Some (gs, r) \<Rightarrow> Some (takeWhile (in_set cs) s # gs, r)
     | None \<Rightarrow> None)"
proof -
  let ?k = "\<lambda>cap. match_atoms (Lit l # as) (at_bol bol cap)"
  have "?k cap (c # t) = None" if "c \<in> set (rev (takeWhile (in_set cs) s))" for c cap t
  proof -
    from that have "in_set cs c" by (auto dest: set_takeWhileD)
    with assms(2) have "c \<noteq> hd l" by auto
    with assms(1) show ?thesis by (rule lit_fails_on)
  qed
  then have "greedy ?k (rev (takeWhile (in_set cs) s)) (dropWhile (in_set cs) s) =
    (case ?k (rev (rev (takeWhile (in_set cs) s))) (dropWhile (in_set cs) s) of
       Some (gs, r) \<Rightarrow> Some (rev (rev (takeWhile (in_set cs) s)) # gs, r) | None \<Rightarrow> None)"
    by (rule greedy_no_backtrack)
  then show ?thesis by (simp split: option.splits)
qed

lemma star_split:
  assumes "\<forall>c\<in>set cap. P c" and "l \<noteq> []" and "\<not> P (hd l)"
  shows "takeWhile P (cap @ l @ t) = cap" and "dropWhile P (cap @ l @ t) = l @ t"
  using assms by (cases l; simp)+

lemma group_lit_iff:
  assumes "l \<noteq> []" and "\<not> in_set cs (hd l)"
  shows "match_atoms (Group cs # Lit l # as) bol s = Some (gs, r) \<longleftrightarrow>
    (\<exists>cap gs' s'. gs = cap # gs' \<and> s = cap @ l @ s' \<and> (\<forall>c\<in>set cap. in_set cs c) \<and>
       match_atoms as (at_bol (at_bol bol cap) l) s' = Some (gs', r))"
    (is "?L \<longleftrightarrow> ?R")
proof
  assume ?L
  let ?cap = "takeWhile (in_set cs) s" and ?d = "dropWhile (in_set cs) s"
  from \<open>?L\<close> obtain gs' where m: "match_atoms (Lit l # as) (at_bol bol ?cap) ?d = Some (gs', r)"
    and gs: "gs = ?cap # gs'"
    unfolding group_lit [OF assms] by (auto split: option.splits)
  from m have t: "take (length l) ?d = l"
    and m': "match_atoms as (at_bol (at_bol bol ?cap) l) (drop (length l) ?d) = Some (gs', r)"
    by (auto split: if_splits)
  have "?d = l @ drop (length l) ?d" using t by (metis append_take_drop_id)
  then have "s = ?cap @ l @ drop (length l) ?d" by (metis takeWhile_dropWhile_id)
  moreover have "\<forall>c\<in>set ?cap. in_set cs c" by (auto dest: set_takeWhileD)
  ultimately show ?R using gs m' by blast
next
  assume ?R
  then obtain cap gs' s' where gs: "gs = cap # gs'" and s: "s = cap @ l @ s'"
    and cap: "\<forall>c\<in>set cap. in_set cs c"
    and m: "match_atoms as (at_bol (at_bol bol cap) l) s' = Some (gs', r)" by blast
  have "takeWhile (in_set cs) s = cap" "dropWhile (in_set cs) s = l @ s'"
    unfolding s using star_split [OF cap assms] by auto
  then show ?L unfolding group_lit [OF assms] using gs m by simp
qed

section \<open>Scanning line by line\<close>

lemma lines_of_nonempty [simp]: "lines_of s \<noteq> []"
  by (induction s) (auto split: list.splits)

lemma lines_of_line: "newline \<notin> set l \<Longrightarrow> lines_of l = [l]"
  by (induction l) auto

lemma lines_of_append: "newline \<notin> set l \<Longrightarrow> lines_of (l @ newline # t) = l # lines_of t"
  by (induction l) auto

lemma lines_of_no_newline: "l \<in> set (lines_of s) \<Longrightarrow> newline \<notin> set l"
  by (induction s arbitrary: l) (auto split: if_splits list.splits)

lemma join_lines_Cons: "ls \<noteq> [] \<Longrightarrow> join_lines (l # ls) = l @ newline # join_lines ls"
  by (cases ls) auto

lemma join_lines_Cons_Cons: "join_lines ((c # l) # ls) = c # join_lines (l # ls)"
  by (cases ls) auto

lemma join_lines_of: "join_lines (lines_of s) = s"
  by (induction s) (auto split: list.splits simp: join_lines_Cons join_lines_Cons_Cons)

lemma lines_of_join:
  "ls \<noteq> [] \<Longrightarrow> \<forall>l\<in>set ls. newline \<notin> set l \<Longrightarrow> lines_of (join_lines ls) = ls"
proof (induction ls rule: join_lines.induct)
  case 1
  then show ?case by simp
next
  case (2 l)
  then show ?case by (simp add: lines_of_line)
next
  case (3 l k ks)
  then show ?case by (simp add: lines_of_append)
qed

lemma text_by_lines [case_names line more]:
  assumes "\<And>l. newline \<notin> set l \<Longrightarrow> P l"
    and "\<And>l t. newline \<notin> set l \<Longrightarrow> P t \<Longrightarrow> P (l @ newline # t)"
  shows "P s"
proof (induction s rule: length_induct)
  case (1 s)
  show ?case
  proof (cases "newline \<in> set s")
    case False
    then show ?thesis by (rule assms(1))
  next
    case True
    then obtain l t where s: "s = l @ newline # t" and l: "newline \<notin> set l"
      by (meson split_list_first)
    have "P t" using 1 s by simp
    with l show ?thesis unfolding s by (rule assms(2))
  qed
qed

lemma scan_not_bol:
  assumes "line_anchored p" and "newline \<notin> set l"
  shows "scan p False (l @ newline # t) = map Text l @ Text newline # scan p True t"
  using assms(2)
proof (induction l)
  case Nil
  show ?case using assms(1) by (subst scan.simps) (simp add: line_anchored_def)
next
  case (Cons c l)
  then have "c \<noteq> newline" by auto
  with Cons show ?case using assms(1) by (subst scan.simps) (simp add: line_anchored_def)
qed

lemma scan_not_bol_last:
  assumes "line_anchored p" and "newline \<notin> set l"
  shows "scan p False l = map Text l"
  using assms(2)
proof (induction l)
  case Nil
  show ?case using assms(1) by (subst scan.simps) (simp add: line_anchored_def)
next
  case (Cons c l)
  then have "c \<noteq> newline" by auto
  with Cons show ?case using assms(1) by (subst scan.simps) (simp add: line_anchored_def)
qed

lemma anchored_match:
  assumes "line_anchored p" and "match_atoms p True s = Some (gs, r)"
  shows "length r < length s" and "at_bol True (take (length s - length r) s) = False"
    and "newline \<notin> set s \<Longrightarrow> newline \<notin> set r"
proof -
  from assms obtain m where m: "s = m @ r" "m \<noteq> []" "newline \<notin> set m"
    unfolding line_anchored_def by blast
  show "length r < length s" using m by simp
  have "take (length s - length r) s = m" using m by simp
  moreover have "last m \<noteq> newline" using m(2,3) last_in_set by metis
  ultimately show "at_bol True (take (length s - length r) s) = False"
    using m(2) by (simp add: at_bol_def)
  show "newline \<notin> set s \<Longrightarrow> newline \<notin> set r" using m by simp
qed

lemma scan_bol_last:
  assumes "line_anchored p" and "newline \<notin> set l"
  shows "scan p True l = line_pieces p l"
proof (cases "match_atoms p True l")
  case None
  show ?thesis
  proof (cases l)
    case Nil
    then show ?thesis using None by (subst scan.simps) (simp add: line_pieces_def)
  next
    case (Cons c l')
    then have "scan p False l' = map Text l'" using assms by (simp add: scan_not_bol_last)
    moreover have "c \<noteq> newline" using Cons assms(2) by auto
    ultimately show ?thesis using None Cons
      by (subst scan.simps) (simp add: line_pieces_def)
  qed
next
  case (Some a)
  obtain gs r where a: "a = (gs, r)" by (cases a)
  note m = Some [unfolded a]
  have "scan p False r = map Text r"
    using assms anchored_match(3) [OF assms(1) m] by (simp add: scan_not_bol_last)
  then show ?thesis using m anchored_match(1,2) [OF assms(1) m]
    by (subst scan.simps) (simp add: line_pieces_def)
qed

lemma scan_bol:
  assumes "line_anchored p" and "newline \<notin> set l"
  shows "scan p True (l @ newline # t) = line_pieces p l @ Text newline # scan p True t"
proof -
  have loc: "match_atoms p True (l @ newline # t) =
    (case match_atoms p True l of Some (gs, r) \<Rightarrow> Some (gs, r @ newline # t) | None \<Rightarrow> None)"
    using assms unfolding line_anchored_def by blast
  show ?thesis
  proof (cases "match_atoms p True l")
    case None
    then have n: "match_atoms p True (l @ newline # t) = None" using loc by simp
    show ?thesis
    proof (cases l)
      case Nil
      then show ?thesis using n None by (subst scan.simps) (simp add: line_pieces_def)
    next
      case (Cons c l')
      then have "scan p False (l' @ newline # t) = map Text l' @ Text newline # scan p True t"
        using assms by (simp add: scan_not_bol)
      moreover have "c \<noteq> newline" using Cons assms(2) by auto
      ultimately show ?thesis using n None Cons
        by (subst scan.simps) (simp add: line_pieces_def)
    qed
  next
    case (Some a)
    obtain gs r where a: "a = (gs, r)" by (cases a)
    note m = Some [unfolded a]
    have m': "match_atoms p True (l @ newline # t) = Some (gs, r @ newline # t)"
      using loc m by simp
    have "scan p False (r @ newline # t) = map Text r @ Text newline # scan p True t"
      using assms anchored_match(3) [OF assms(1) m] by (simp add: scan_not_bol)
    then show ?thesis using m m' anchored_match(1,2) [OF assms(1) m']
      by (subst scan.simps) (simp add: line_pieces_def)
  qed
qed

lemma concat_text: "concat (map (replaced repl \<circ> Text) r) = r"
  by (induction r) auto

lemma concat_no_text: "concat (map (found \<circ> Text) r) = []"
  by (induction r) auto

lemma sub_line:
  assumes "line_anchored p" and "newline \<notin> set l"
  shows "sub p repl l = rewrite_line p repl l"
  using assms
  by (simp add: sub_def scan_bol_last line_pieces_def rewrite_line_def concat_text
      split: option.splits)

lemma sub_more:
  assumes "line_anchored p" and "newline \<notin> set l"
  shows "sub p repl (l @ newline # t) = rewrite_line p repl l @ newline # sub p repl t"
  using assms
  by (simp add: sub_def scan_bol line_pieces_def rewrite_line_def concat_text
      split: option.splits)

lemma sub_by_lines:
  assumes "line_anchored p"
  shows "sub p repl s = join_lines (map (rewrite_line p repl) (lines_of s))"
proof (induction s rule: text_by_lines)
  case (line l)
  then show ?case using assms by (simp add: sub_line lines_of_line)
next
  case (more l t)
  then show ?case using assms by (simp add: sub_more lines_of_append join_lines_Cons)
qed

lemma findall_line:
  assumes "line_anchored p" and "newline \<notin> set l"
  shows "findall p l = found_in_line p l"
  using assms
  by (simp add: findall_def scan_bol_last line_pieces_def found_in_line_def concat_no_text
      split: option.splits)

lemma findall_more:
  assumes "line_anchored p" and "newline \<notin> set l"
  shows "findall p (l @ newline # t) = found_in_line p l @ findall p t"
  using assms
  by (simp add: findall_def scan_bol line_pieces_def found_in_line_def concat_no_text
      split: option.splits)

lemma findall_by_lines:
  assumes "line_anchored p"
  shows "findall p s = concat (map (found_in_line p) (lines_of s))"
proof (induction s rule: text_by_lines)
  case (line l)
  then show ?case using assms by (simp add: findall_line lines_of_line)
next
  case (more l t)
  then show ?case using assms by (simp add: findall_more lines_of_append)
qed

lemma lit_iff:
  "match_atoms (Lit l # as) bol s = Some x \<longleftrightarrow>
     (\<exists>s'. s = l @ s' \<and> match_atoms as (at_bol bol l) s' = Some x)"
proof
  assume a: "match_atoms (Lit l # as) bol s = Some x"
  then have t: "take (length l) s = l" by (simp split: if_splits)
  then have "s = l @ drop (length l) s" by (metis append_take_drop_id)
  moreover have "match_atoms as (at_bol bol l) (drop (length l) s) = Some x"
    using a t by simp
  ultimately show "\<exists>s'. s = l @ s' \<and> match_atoms as (at_bol bol l) s' = Some x" by blast
next
  assume "\<exists>s'. s = l @ s' \<and> match_atoms as (at_bol bol l) s' = Some x"
  then show "match_atoms (Lit l # as) bol s = Some x" by auto
qed

lemma in_ident_set: "in_set ident_set c \<Longrightarrow> c \<noteq> CHR '' '' \<and> c \<noteq> newline"
  by (auto simp: in_set_def ident_set_def newline_def)

lemma in_path_set: "in_set path_set c \<Longrightarrow> c \<noteq> CHR 0x22 \<and> c \<noteq> newline"
  by (auto simp: in_set_def path_set_def newline_def)

lemma in_version_set: "in_set version_set c \<Longrightarrow> c \<noteq> CHR 0x22 \<and> c \<noteq> newline"
  by (auto simp: in_set_def version_set_def newline_def)

lemma dep_match_iff:
  "match_atoms dependencyPattern True s = Some (gs, r) \<longleftrightarrow>
     (\<exists>i p v. gs = [i, p, v] \<and> s = dep_text i p v @ r \<and>
        all_in ident_set i \<and> all_in path_set p \<and> all_in version_set v)"
proof -
  have 1: \<open>\<not> in_set ident_set (hd '' = { path = "'')\<close> \<open>\<not> in_set path_set (hd ''", version = "'')\<close>
    \<open>\<not> in_set version_set (hd ''" }'')\<close>
    using in_ident_set in_path_set in_version_set by auto
  show ?thesis
    unfolding dependencyPattern_def dep_text_def all_in_def
    apply (simp only: match_atoms.simps(2) [of Bol] atom.case if_True)
    apply (subst group_lit_iff)
    apply simp
    using 1 apply simp
    apply (subst group_lit_iff)
    apply simp
    using 1 apply simp
    apply (subst group_lit_iff)
    apply simp
    using 1 apply simp
    apply (simp only: match_atoms.simps(1) list_all_iff)
    apply auto 
    done
qed

lemma version_match_iff:
  "match_atoms versionPattern True s = Some (gs, r) \<longleftrightarrow>
     (\<exists>v. gs = [v] \<and> s = version_text v @ r \<and> all_in version_set v)"
proof -
  have 1: \<open>\<not> in_set version_set (hd ''"'')\<close>
    using in_version_set by auto
  show ?thesis
    unfolding versionPattern_def version_text_def all_in_def
    apply (simp only: match_atoms.simps(2) [of Bol] atom.case if_True)
    apply (subst lit_iff)
    apply (subst group_lit_iff)
    apply simp
    using 1 apply simp
    apply (simp only: match_atoms.simps(1) list_all_iff)
    apply auto
    done
qed

lemma dep_not_bol: "match_atoms dependencyPattern False s = None"
  by (simp add: dependencyPattern_def)

lemma version_not_bol: "match_atoms versionPattern False s = None"
  by (simp add: versionPattern_def)

lemma all_in_no_newline:
  "all_in ident_set t \<Longrightarrow> newline \<notin> set t"
  "all_in path_set t \<Longrightarrow> newline \<notin> set t"
  "all_in version_set t \<Longrightarrow> newline \<notin> set t"
  using in_ident_set in_path_set in_version_set by (auto simp: all_in_def list_all_iff)

lemma dep_text_no_newline:
  "all_in ident_set i \<Longrightarrow> all_in path_set p \<Longrightarrow> all_in version_set v \<Longrightarrow>
     newline \<notin> set (dep_text i p v)"
  using all_in_no_newline [of i] all_in_no_newline(2) [of p] all_in_no_newline(3) [of v]
  by (auto simp: dep_text_def newline_def)

lemma version_text_no_newline:
  "all_in version_set v \<Longrightarrow> newline \<notin> set (version_text v)"
  using all_in_no_newline(3) [of v] by (auto simp: version_text_def newline_def)

lemma split_at_newline:
  assumes "newline \<notin> set l" and "newline \<notin> set m" and "l @ newline # t = m @ r"
  shows "\<exists>r0. l = m @ r0 \<and> r = r0 @ newline # t"
proof -
  from assms(3) consider us where "l = m @ us" "us @ newline # t = r"
    | us where "l @ us = m" "newline # t = us @ r"
    by (auto simp: append_eq_append_conv2)
  then show ?thesis
  proof cases
    case 1
    then show ?thesis by auto
  next
    case 2
    show ?thesis
    proof (cases us)
      case Nil
      with 2 show ?thesis by auto
    next
      case (Cons u us')
      with 2 have "newline \<in> set m" by auto
      with assms(2) show ?thesis by simp
    qed
  qed
qed

lemma line_anchored_shape:
  assumes nb: "\<And>s. match_atoms p False s = None"
    and iff: "\<And>s gs r. match_atoms p True s = Some (gs, r) \<longleftrightarrow> (\<exists>m. s = m @ r \<and> shape gs m)"
    and sh: "\<And>gs m. shape gs m \<Longrightarrow> m \<noteq> [] \<and> newline \<notin> set m"
  shows "line_anchored p"
proof -
  have loc: "match_atoms p True (l @ newline # t) =
      (case match_atoms p True l of Some (gs, r) \<Rightarrow> Some (gs, r @ newline # t) | None \<Rightarrow> None)"
    if l: "newline \<notin> set l" for l t
  proof (cases "match_atoms p True l")
    case None
    have "match_atoms p True (l @ newline # t) = None"
    proof (rule ccontr)
      assume "match_atoms p True (l @ newline # t) \<noteq> None"
      then obtain gs r where "match_atoms p True (l @ newline # t) = Some (gs, r)" by auto
      then obtain m where m: "l @ newline # t = m @ r" "shape gs m" using iff by blast
      then have "newline \<notin> set m" using sh by blast
      with l m(1) obtain r0 where "l = m @ r0" using split_at_newline by blast
      with m(2) have "match_atoms p True l = Some (gs, r0)" using iff by blast
      with None show False by simp
    qed
    with None show ?thesis by simp
  next
    case (Some a)
    obtain gs r where a: "a = (gs, r)" by (cases a)
    with Some obtain m where "l = m @ r" "shape gs m" using iff by blast
    then have "match_atoms p True (l @ newline # t) = Some (gs, r @ newline # t)"
      using iff [of "l @ newline # t" gs "r @ newline # t"] by auto
    with Some a show ?thesis by simp
  qed
  show ?thesis
    unfolding line_anchored_def using nb loc iff sh by blast
qed

lemma dep_anchored: "line_anchored dependencyPattern"
proof (rule line_anchored_shape [where shape = "\<lambda>gs m. \<exists>i p v. gs = [i, p, v] \<and> m = dep_text i p v \<and>
        all_in ident_set i \<and> all_in path_set p \<and> all_in version_set v"])
  show "match_atoms dependencyPattern False s = None" for s by (rule dep_not_bol)
  show "match_atoms dependencyPattern True s = Some (gs, r) \<longleftrightarrow>
    (\<exists>m. s = m @ r \<and> (\<exists>i p v. gs = [i, p, v] \<and> m = dep_text i p v \<and>
        all_in ident_set i \<and> all_in path_set p \<and> all_in version_set v))" for s gs r
    unfolding dep_match_iff by blast
  show "(\<exists>i p v. gs = [i, p, v] \<and> m = dep_text i p v \<and>
        all_in ident_set i \<and> all_in path_set p \<and> all_in version_set v) \<Longrightarrow>
      m \<noteq> [] \<and> newline \<notin> set m" for gs m
    using dep_text_no_newline by (auto simp: dep_text_def)
qed

lemma version_anchored: "line_anchored versionPattern"
proof (rule line_anchored_shape [where shape = "\<lambda>gs m. \<exists>v. gs = [v] \<and> m = version_text v \<and>
        all_in version_set v"])
  show "match_atoms versionPattern False s = None" for s by (rule version_not_bol)
  show "match_atoms versionPattern True s = Some (gs, r) \<longleftrightarrow>
    (\<exists>m. s = m @ r \<and> (\<exists>v. gs = [v] \<and> m = version_text v \<and> all_in version_set v))" for s gs r
    unfolding version_match_iff by blast
  show "(\<exists>v. gs = [v] \<and> m = version_text v \<and> all_in version_set v) \<Longrightarrow>
      m \<noteq> [] \<and> newline \<notin> set m" for gs m
    using version_text_no_newline by (auto simp: version_text_def)
qed

section \<open>The rewrite of a line\<close>

lemma replace_groups: "replace v [i, p, old] = dep_text i p v"
  by (simp add: replace_def dep_text_def group_def)

lemma newData_by_lines:
  "newData v data = join_lines (map (rewrite_line dependencyPattern (replace v)) (lines_of data))"
  unfolding newData_def using dep_anchored by (rule sub_by_lines)

lemma version_by_lines:
  "version data =
     (case concat (map (found_in_line versionPattern) (lines_of data)) of
        [] \<Rightarrow> Inl IndexError | v # _ \<Rightarrow> Inr v)"
  unfolding version_def findall_by_lines [OF version_anchored] ..

lemma rewrite_dep_line:
  assumes "match_atoms dependencyPattern True l = Some (gs, r)"
  shows "\<exists>i p old. gs = [i, p, old] \<and> l = dep_text i p old @ r \<and>
           all_in ident_set i \<and> all_in path_set p \<and> all_in version_set old \<and>
           rewrite_line dependencyPattern (replace v) l = dep_text i p v @ r"
proof -
  from assms obtain i p old where *: "gs = [i, p, old]" "l = dep_text i p old @ r"
    "all_in ident_set i" "all_in path_set p" "all_in version_set old"
    unfolding dep_match_iff by blast
  have "rewrite_line dependencyPattern (replace v) l = replace v gs @ r"
    using assms by (simp add: rewrite_line_def)
  with * show ?thesis by (simp add: replace_groups)
qed

lemma rewrite_other_line:
  "match_atoms dependencyPattern True l = None \<Longrightarrow>
     rewrite_line dependencyPattern (replace v) l = l"
  by (simp add: rewrite_line_def)

lemma match_rewritten:
  assumes "match_atoms dependencyPattern True l = Some (gs, r)" and "all_in version_set v"
  shows "match_atoms dependencyPattern True (rewrite_line dependencyPattern (replace v) l) =
           Some ([group gs 1, group gs 2, v], r)"
proof -
  from rewrite_dep_line [OF assms(1), of v] obtain i p old where
    *: "gs = [i, p, old]" "all_in ident_set i" "all_in path_set p"
       "rewrite_line dependencyPattern (replace v) l = dep_text i p v @ r" by blast
  then show ?thesis using assms(2) by (auto simp: dep_match_iff group_def)
qed

lemma match_rewritten_None:
  assumes "match_atoms dependencyPattern True l = None"
  shows "match_atoms dependencyPattern True (rewrite_line dependencyPattern (replace v) l) = None"
  using assms by (simp add: rewrite_line_def)

lemma rewrite_no_newline:
  assumes "newline \<notin> set l" and "all_in version_set v"
  shows "newline \<notin> set (rewrite_line dependencyPattern (replace v) l)"
proof (cases "match_atoms dependencyPattern True l")
  case None
  then show ?thesis using assms(1) by (simp add: rewrite_other_line)
next
  case (Some a)
  obtain gs r where "a = (gs, r)" by (cases a)
  with Some rewrite_dep_line [of l gs r v] obtain i p old where
    *: "l = dep_text i p old @ r" "all_in ident_set i" "all_in path_set p"
       "rewrite_line dependencyPattern (replace v) l = dep_text i p v @ r" by blast
  then show ?thesis using assms dep_text_no_newline [of i p v] by auto
qed

lemma lines_of_newData:
  assumes "all_in version_set v"
  shows "lines_of (newData v data) =
    map (rewrite_line dependencyPattern (replace v)) (lines_of data)"
proof -
  have "newline \<notin> set k"
    if "k \<in> set (map (rewrite_line dependencyPattern (replace v)) (lines_of data))" for k
  proof -
    from that obtain l where "l \<in> set (lines_of data)"
      and k: "k = rewrite_line dependencyPattern (replace v) l" by auto
    then have "newline \<notin> set l" by (simp add: lines_of_no_newline)
    then show ?thesis unfolding k using assms by (rule rewrite_no_newline)
  qed
  then show ?thesis unfolding newData_by_lines by (intro lines_of_join) auto
qed

lemma rewrite_idem:
  assumes "all_in version_set v"
  shows "rewrite_line dependencyPattern (replace v) (rewrite_line dependencyPattern (replace v) l) =
    rewrite_line dependencyPattern (replace v) l"
proof (cases "match_atoms dependencyPattern True l")
  case None
  then show ?thesis by (simp add: rewrite_other_line)
next
  case (Some a)
  obtain gs r where a: "a = (gs, r)" by (cases a)
  from Some a rewrite_dep_line [of l gs r v] obtain i p old where
    *: "gs = [i, p, old]" "all_in ident_set i" "all_in path_set p"
       "rewrite_line dependencyPattern (replace v) l = dep_text i p v @ r" by blast
  have "match_atoms dependencyPattern True (dep_text i p v @ r) = Some ([i, p, v], r)"
    using * assms by (auto simp: dep_match_iff)
  then show ?thesis unfolding *(4) by (simp add: rewrite_line_def replace_groups)
qed

lemma dep_text_not_version:
  assumes "all_in ident_set i"
  shows "match_atoms versionPattern True (dep_text i p v @ r) = None"
proof (rule ccontr)
  let ?l = "dep_text i p v @ r"
  assume "match_atoms versionPattern True ?l \<noteq> None"
  then obtain gs' r' where "match_atoms versionPattern True ?l = Some (gs', r')" by auto
  then obtain w where w: "?l = version_text w @ r'" unfolding version_match_iff by blast
  have "takeWhile (in_set ident_set) ?l = i"
    "dropWhile (in_set ident_set) ?l = drop (length i) ?l"
    using assms unfolding dep_text_def all_in_def list_all_iff
    by (simp_all add: in_set_def ident_set_def)
  moreover have \<open>takeWhile (in_set ident_set) ?l = ''version''\<close>
    \<open>take 4 (dropWhile (in_set ident_set) ?l) = '' = "''\<close>
    unfolding w version_text_def by (simp_all add: in_set_def ident_set_def)
  ultimately show False unfolding dep_text_def by simp
qed

lemma dep_line_not_version:
  assumes "match_atoms dependencyPattern True l = Some (gs, r)"
  shows "match_atoms versionPattern True l = None"
proof -
  from assms obtain i p old where "l = dep_text i p old @ r" and "all_in ident_set i"
    unfolding dep_match_iff by blast
  then show ?thesis by (simp add: dep_text_not_version)
qed

lemma version_match_rewritten:
  "match_atoms versionPattern True (rewrite_line dependencyPattern (replace v) l) =
     match_atoms versionPattern True l"
proof (cases "match_atoms dependencyPattern True l")
  case None
  then show ?thesis by (simp add: rewrite_other_line)
next
  case (Some a)
  obtain gs r where a: "a = (gs, r)" by (cases a)
  with Some have m: "match_atoms dependencyPattern True l = Some (gs, r)" by simp
  from rewrite_dep_line [OF m, of v] obtain i p old where
    "all_in ident_set i" "rewrite_line dependencyPattern (replace v) l = dep_text i p v @ r"
    by blast
  then show ?thesis using dep_line_not_version [OF m] by (simp add: dep_text_not_version)
qed

section \<open>The version that the script reads\<close>

lemma first_found:
  assumes "i < length ls" and "f (ls ! i) = x # xs" and "\<forall>j<i. f (ls ! j) = []"
  shows "\<exists>ys. concat (map f ls) = x # ys"
  using assms
proof (induction ls arbitrary: i)
  case Nil
  then show ?case by simp
next
  case (Cons a ls)
  show ?case
  proof (cases i)
    case 0
    with Cons.prems(2) show ?thesis by simp
  next
    case (Suc k)
    with Cons.prems have "k < length ls" "f (ls ! k) = x # xs" by simp_all
    moreover have "\<forall>j<k. f (ls ! j) = []"
    proof (intro allI impI)
      fix j assume "j < k"
      then have "Suc j < i" using Suc by simp
      with Cons.prems(3) have "f ((a # ls) ! Suc j) = []" by blast
      then show "f (ls ! j) = []" by simp
    qed
    ultimately obtain ys where "concat (map f ls) = x # ys" using Cons.IH by blast
    moreover have "0 < i" using Suc by simp
    with Cons.prems(3) have "f ((a # ls) ! 0) = []" by blast
    then have "f a = []" by simp
    ultimately show ?thesis by simp
  qed
qed

lemma version_first_line:
  assumes "i < length (lines_of data)"
    and "match_atoms versionPattern True (lines_of data ! i) = Some (gs, rest)"
    and "\<forall>j<i. match_atoms versionPattern True (lines_of data ! j) = None"
  shows "version data = Inr (group gs 1)"
proof -
  let ?f = "found_in_line versionPattern"
  have a: "?f (lines_of data ! i) = group gs 1 # []"
    using assms(2) by (simp add: found_in_line_def)
  have b: "\<forall>j<i. ?f (lines_of data ! j) = []"
    using assms(3) by (simp add: found_in_line_def)
  from first_found [of i "lines_of data" ?f, OF assms(1) a b]
  obtain ys where "concat (map ?f (lines_of data)) = group gs 1 # ys" ..
  then show ?thesis unfolding version_by_lines by (simp only: list.case)
qed

lemma version_no_line:
  assumes "\<forall>l\<in>set (lines_of data). match_atoms versionPattern True l = None"
  shows "version data = Inl IndexError"
proof -
  have "found_in_line versionPattern l = []" if "l \<in> set (lines_of data)" for l
    using assms that by (simp add: found_in_line_def)
  then have "concat (map (found_in_line versionPattern) (lines_of data)) = []"
    by simp
  then show ?thesis unfolding version_by_lines by (simp only: list.case)
qed

lemma version_some_line:
  assumes "version data = Inr v"
  shows "\<exists>l\<in>set (lines_of data). \<exists>r. match_atoms versionPattern True l = Some ([v], r)"
proof -
  let ?f = "found_in_line versionPattern"
  have "concat (map ?f (lines_of data)) \<noteq> []"
    using assms unfolding version_by_lines by (cases "concat (map ?f (lines_of data))") simp_all
  then obtain w ys where c: "concat (map ?f (lines_of data)) = w # ys"
    by (cases "concat (map ?f (lines_of data))") simp_all
  with assms have "w = v" unfolding version_by_lines by (simp only: list.case sum.inject)
  with c have "v \<in> set (concat (map ?f (lines_of data)))" by simp
  then obtain l where l: "l \<in> set (lines_of data)" and vl: "v \<in> set (?f l)"
    by auto
  show ?thesis
  proof (cases "match_atoms versionPattern True l")
    case None
    with vl show ?thesis by (simp add: found_in_line_def)
  next
    case (Some a)
    obtain gs r where a: "a = (gs, r)" by (cases a)
    with Some vl have v: "v = group gs 1" by (simp add: found_in_line_def)
    from Some a have m: "match_atoms versionPattern True l = Some (gs, r)" by simp
    then obtain w where "gs = [w]" unfolding version_match_iff by blast
    with v have "gs = [v]" by (simp add: group_def)
    with m l show ?thesis by blast
  qed
qed

lemma version_in_set:
  assumes "version data = Inr v"
  shows "all_in version_set v"
proof -
  from version_some_line [OF assms] obtain l r where
    "match_atoms versionPattern True l = Some ([v], r)" by blast
  then obtain w where "[v] = [w]" "all_in version_set w" unfolding version_match_iff by blast
  then show ?thesis by simp
qed

lemma version_line_exists:
  assumes "l \<in> set (lines_of data)" and "match_atoms versionPattern True l \<noteq> None"
  shows "\<exists>v. version data = Inr v"
proof -
  let ?f = "found_in_line versionPattern"
  from assms(2) obtain gs r where "match_atoms versionPattern True l = Some (gs, r)" by auto
  then have "?f l \<noteq> []" by (simp add: found_in_line_def)
  with assms(1) have "concat (map ?f (lines_of data)) \<noteq> []"
    by auto
  then obtain w ys where "concat (map ?f (lines_of data)) = w # ys"
    by (cases "concat (map ?f (lines_of data))") simp_all
  then have "version data = Inr w" unfolding version_by_lines by (simp only: list.case)
  then show ?thesis ..
qed

lemma transform_lines:
  assumes "transform data = Inr out"
  shows "\<exists>v. version data = Inr v \<and> all_in version_set v \<and> out = newData v data \<and>
    lines_of out = map (rewrite_line dependencyPattern (replace v)) (lines_of data)"
proof (cases "version data")
  case (Inl e)
  with assms show ?thesis by (simp add: transform_def)
next
  case (Inr v)
  with assms have out: "out = newData v data" by (simp add: transform_def)
  have v: "all_in version_set v" using Inr by (rule version_in_set)
  show ?thesis using Inr v out lines_of_newData [OF v] by blast
qed

lemma transform_version:
  assumes "version data = Inr v"
  shows "transform data = Inr (newData v data)"
  using assms by (simp add: transform_def)

lemma found_in_rewritten:
  "found_in_line versionPattern (rewrite_line dependencyPattern (replace v) l) =
     found_in_line versionPattern l"
  by (simp add: found_in_line_def version_match_rewritten)

lemma transform_keeps_findall:
  assumes "transform data = Inr out"
  shows "findall versionPattern out = findall versionPattern data"
proof -
  from transform_lines [OF assms] obtain v where
    "lines_of out = map (rewrite_line dependencyPattern (replace v)) (lines_of data)" by blast
  then show ?thesis
    unfolding findall_by_lines [OF version_anchored]
    by (simp add: comp_def found_in_rewritten)
qed

lemma transform_keeps_version:
  assumes "transform data = Inr out"
  shows "version out = version data"
  unfolding version_def transform_keeps_findall [OF assms] ..

lemma newData_again:
  assumes "all_in version_set v"
  shows "newData v (newData v data) = newData v data"
proof -
  have "newData v (newData v data) =
    join_lines (map (rewrite_line dependencyPattern (replace v)) (lines_of (newData v data)))"
    by (rule newData_by_lines)
  also have "\<dots> = join_lines (map (rewrite_line dependencyPattern (replace v)) (lines_of data))"
    unfolding lines_of_newData [OF assms] by (simp add: comp_def rewrite_idem [OF assms])
  also have "\<dots> = newData v data" by (rule newData_by_lines [symmetric])
  finally show ?thesis .
qed

lemma nth_lines_of_transform:
  assumes "version data = Inr v" and "i < length (lines_of data)"
  shows "lines_of (newData v data) ! i =
    rewrite_line dependencyPattern (replace v) (lines_of data ! i)"
  using assms(2) lines_of_newData [OF version_in_set [OF assms(1)], of data] by simp

section \<open>The properties of the script\<close>

text \<open>
  C1. When the script has read the version \<open>v\<close> and line \<open>i\<close> of the text matches the
  dependency pattern with the groups \<open>gs\<close>, the transform succeeds, keeps the number of
  lines, and line \<open>i\<close> of its output matches the dependency pattern again, with the
  identifier and the path of the input line (groups 1 and 2) and with \<open>v\<close> as the version
  in place of the old one.
\<close>

theorem dependency_fields_kept:
  assumes "version data = Inr v"
    and "i < length (lines_of data)"
    and "match_atoms dependencyPattern True (lines_of data ! i) = Some (gs, rest)"
  shows "\<exists>out. transform data = Inr out \<and>
    length (lines_of out) = length (lines_of data) \<and>
    match_atoms dependencyPattern True (lines_of out ! i) = Some ([group gs 1, group gs 2, v], rest)"
proof -
  have v: "all_in version_set v" using assms(1) by (rule version_in_set)
  have "transform data = Inr (newData v data)" using assms(1) by (rule transform_version)
  moreover have "length (lines_of (newData v data)) = length (lines_of data)"
    by (simp add: lines_of_newData [OF v])
  moreover have "match_atoms dependencyPattern True (lines_of (newData v data) ! i) =
      Some ([group gs 1, group gs 2, v], rest)"
    unfolding nth_lines_of_transform [OF assms(1,2)] using assms(3) v by (rule match_rewritten)
  ultimately show ?thesis by blast
qed

theorem dependency_fields_kept_witness:
  \<open>\<exists>out. transform example_manifest = Inr out \<and>
     length (lines_of out) = length (lines_of example_manifest) \<and>
     match_atoms dependencyPattern True (lines_of out ! 2) =
       Some ([''bar'', ''./bar'', ''2.3.1''], '' # local'')\<close>
proof -
  have 1: \<open>version example_manifest = Inr ''2.3.1''\<close> by code_simp
  have 2: "2 < length (lines_of example_manifest)" by code_simp
  have 3: \<open>match_atoms dependencyPattern True (lines_of example_manifest ! 2) =
    Some ([''bar'', ''./bar'', ''2.3.0''], '' # local'')\<close> by code_simp
  show ?thesis using dependency_fields_kept [OF 1 2 3] by (simp add: group_def)
qed

text \<open>
  C2. The transform is idempotent: when it succeeds on a text, it succeeds on its own
  output and returns that output unchanged.
\<close>

theorem transform_idempotent:
  assumes "transform data = Inr out"
  shows "transform out = Inr out"
proof -
  from transform_lines [OF assms] obtain v where v: "version data = Inr v"
    "all_in version_set v" "out = newData v data" by blast
  have "version out = Inr v" using transform_keeps_version [OF assms] v(1) by simp
  then have "transform out = Inr (newData v out)" by (rule transform_version)
  then show ?thesis unfolding v(3) newData_again [OF v(2)] .
qed

theorem transform_idempotent_witness:
  \<open>transform (newData ''2.3.1'' example_manifest) = Inr (newData ''2.3.1'' example_manifest)\<close>
proof -
  have \<open>transform example_manifest = Inr (newData ''2.3.1'' example_manifest)\<close> by code_simp
  then show ?thesis by (rule transform_idempotent)
qed

text \<open>
  C3. When line \<open>i\<close> of the text is \<^verbatim>\<open>version = "X"\<close> followed by any text, with every
  character of \<open>X\<close> in the set of the version pattern, and no earlier line has this
  form, the version that the script reads is \<open>X\<close>: the value of the first version line
  in the order of the text. This covers a text with exactly one such line.
\<close>

theorem version_of_first_line:
  assumes "i < length (lines_of data)"
    and \<open>lines_of data ! i = ''version = "'' @ X @ ''"'' @ rest\<close>
    and "all_in version_set X"
    and \<open>\<forall>j<i. \<forall>Y r. all_in version_set Y \<longrightarrow>
           lines_of data ! j \<noteq> ''version = "'' @ Y @ ''"'' @ r\<close>
  shows "version data = Inr X"
proof -
  have "lines_of data ! i = version_text X @ rest"
    using assms(2) by (simp add: version_text_def)
  with assms(3) have m: "match_atoms versionPattern True (lines_of data ! i) = Some ([X], rest)"
    unfolding version_match_iff by blast
  have n: "\<forall>j<i. match_atoms versionPattern True (lines_of data ! j) = None"
  proof (intro allI impI)
    fix j assume j: "j < i"
    show "match_atoms versionPattern True (lines_of data ! j) = None"
    proof (rule ccontr)
      assume "match_atoms versionPattern True (lines_of data ! j) \<noteq> None"
      then obtain gs r where "match_atoms versionPattern True (lines_of data ! j) = Some (gs, r)"
        by auto
      then obtain Y where "lines_of data ! j = version_text Y @ r" "all_in version_set Y"
        unfolding version_match_iff by blast
      then have \<open>lines_of data ! j = ''version = "'' @ Y @ ''"'' @ r\<close> "all_in version_set Y"
        by (simp_all add: version_text_def)
      with assms(4) j show False by blast
    qed
  qed
  from version_first_line [OF assms(1) m n] show ?thesis by (simp add: group_def)
qed

theorem version_of_first_line_witness:
  \<open>version two_version_manifest = Inr ''2.3.1''\<close>
proof -
  have 1: "1 < length (lines_of two_version_manifest)" by code_simp
  have 2: \<open>lines_of two_version_manifest ! 1 = ''version = "'' @ ''2.3.1'' @ ''"'' @ '' # current''\<close>
    by code_simp
  have 3: \<open>all_in version_set ''2.3.1''\<close> by code_simp
  have \<open>lines_of two_version_manifest ! 0 = ''[package]''\<close> by code_simp
  then have 4: \<open>\<forall>j<1. \<forall>Y r. all_in version_set Y \<longrightarrow>
      lines_of two_version_manifest ! j \<noteq> ''version = "'' @ Y @ ''"'' @ r\<close>
    by simp
  show ?thesis by (rule version_of_first_line [OF 1 2 3 4])
qed

text \<open>
  C4. When the transform succeeds, its output has as many lines as its input, and every
  line of the input that does not match the dependency pattern is the same line in the
  output.
\<close>

theorem other_lines_unchanged:
  assumes "transform data = Inr out"
  shows "length (lines_of out) = length (lines_of data) \<and>
    (\<forall>i<length (lines_of data).
       match_atoms dependencyPattern True (lines_of data ! i) = None \<longrightarrow>
       lines_of out ! i = lines_of data ! i)"
proof -
  from transform_lines [OF assms] obtain v where
    l: "lines_of out = map (rewrite_line dependencyPattern (replace v)) (lines_of data)"
    by blast
  then show ?thesis by (simp add: rewrite_other_line)
qed

theorem other_lines_unchanged_witness:
  \<open>lines_of (newData ''2.3.1'' example_manifest) ! 3 = ''unrelated_line = true''\<close>
proof -
  have 1: \<open>transform example_manifest = Inr (newData ''2.3.1'' example_manifest)\<close>
    by code_simp
  have 2: "3 < length (lines_of example_manifest)" by code_simp
  have 3: "match_atoms dependencyPattern True (lines_of example_manifest ! 3) = None"
    by code_simp
  have 4: \<open>lines_of example_manifest ! 3 = ''unrelated_line = true''\<close> by code_simp
  from other_lines_unchanged [OF 1] 2 3
  have "lines_of (newData ''2.3.1'' example_manifest) ! 3 = lines_of example_manifest ! 3"
    by blast
  with 4 show ?thesis by simp
qed

text \<open>
  C5. When no line of the text matches the version pattern, the script ends with an
  \<^verbatim>\<open>IndexError\<close>, which is a \<^verbatim>\<open>LookupError\<close>, and leaves the file system as it found it:
  the file is never opened for writing.
\<close>

theorem missing_version_fails:
  assumes "\<forall>l\<in>set (lines_of data). match_atoms versionPattern True l = None"
    and "fs path = Some data"
  shows "transform data = Inl IndexError \<and> is_LookupError IndexError \<and>
    script (prog # path # args) fs = (Some IndexError, fs)"
proof -
  have "version data = Inl IndexError" using assms(1) by (rule version_no_line)
  then have "transform data = Inl IndexError" by (simp add: transform_def)
  then show ?thesis using assms(2) by (simp add: script_def)
qed

theorem missing_version_fails_witness:
  "transform no_version_manifest = Inl IndexError \<and> is_LookupError IndexError \<and>
     script [''dependency_version.py'', ''Cargo.toml''] [''Cargo.toml'' \<mapsto> no_version_manifest] =
       (Some IndexError, [''Cargo.toml'' \<mapsto> no_version_manifest])"
proof -
  have 1: "\<forall>l\<in>set (lines_of no_version_manifest). match_atoms versionPattern True l = None"
    by code_simp
  have 2: "[''Cargo.toml'' \<mapsto> no_version_manifest] ''Cargo.toml'' = Some no_version_manifest"
    by simp
  show ?thesis
    by (rule missing_version_fails [where fs = "[''Cargo.toml'' \<mapsto> no_version_manifest]"
          and path = "''Cargo.toml''" and args = "[]", OF 1 2])
qed

text \<open>
  C6. When some line of the text matches the version pattern and no line matches the
  dependency pattern, the transform returns the text as it is.
\<close>

theorem no_dependency_identity:
  assumes "\<exists>l\<in>set (lines_of data). match_atoms versionPattern True l \<noteq> None"
    and "\<forall>l\<in>set (lines_of data). match_atoms dependencyPattern True l = None"
  shows "transform data = Inr data"
proof -
  from assms(1) obtain v where v: "version data = Inr v" using version_line_exists by blast
  have "map (rewrite_line dependencyPattern (replace v)) (lines_of data) = lines_of data"
    using assms(2) by (intro map_idI) (simp add: rewrite_other_line)
  then have "newData v data = data" unfolding newData_by_lines by (simp add: join_lines_of)
  with transform_version [OF v] show ?thesis by simp
qed

theorem no_dependency_identity_witness:
  "transform plain_manifest = Inr plain_manifest"
proof -
  have 1: "\<exists>l\<in>set (lines_of plain_manifest). match_atoms versionPattern True l \<noteq> None"
    by code_simp
  have 2: "\<forall>l\<in>set (lines_of plain_manifest). match_atoms dependencyPattern True l = None"
    by code_simp
  show ?thesis by (rule no_dependency_identity [OF 1 2])
qed

text \<open>
  C8. When the script has read the version \<open>v\<close> and line \<open>i\<close> of the text matches the
  dependency pattern with the groups \<open>gs\<close> and the text \<open>rest\<close> after the match, the input
  line is the declaration in the format of \<^verbatim>\<open>replace\<close> with its old version, followed by
  \<open>rest\<close>, and the output line is the declaration with the version \<open>v\<close>, followed by
  the same \<open>rest\<close>.
\<close>

theorem trailing_text_kept:
  assumes "version data = Inr v"
    and "i < length (lines_of data)"
    and "match_atoms dependencyPattern True (lines_of data ! i) = Some (gs, rest)"
  shows "\<exists>out. transform data = Inr out \<and>
    lines_of data ! i = replace (group gs 3) gs @ rest \<and>
    lines_of out ! i = replace v gs @ rest"
proof -
  from rewrite_dep_line [OF assms(3), of v] obtain a p old where
    *: "gs = [a, p, old]" "lines_of data ! i = dep_text a p old @ rest"
       "rewrite_line dependencyPattern (replace v) (lines_of data ! i) = dep_text a p v @ rest"
    by blast
  have "transform data = Inr (newData v data)" using assms(1) by (rule transform_version)
  moreover have "lines_of data ! i = replace (group gs 3) gs @ rest"
    using *(1,2) by (simp add: replace_groups group_def)
  moreover have "lines_of (newData v data) ! i = replace v gs @ rest"
    unfolding nth_lines_of_transform [OF assms(1,2)] using *(1,3) by (simp add: replace_groups)
  ultimately show ?thesis by blast
qed

theorem trailing_text_kept_witness:
  \<open>\<exists>out. transform example_manifest = Inr out \<and>
     lines_of example_manifest ! 2 = ''bar = { path = "./bar", version = "2.3.0" } # local'' \<and>
     lines_of out ! 2 = ''bar = { path = "./bar", version = "2.3.1" } # local''\<close>
proof -
  have 1: \<open>version example_manifest = Inr ''2.3.1''\<close> by code_simp
  have 2: "2 < length (lines_of example_manifest)" by code_simp
  have 3: \<open>match_atoms dependencyPattern True (lines_of example_manifest ! 2) =
    Some ([''bar'', ''./bar'', ''2.3.0''], '' # local'')\<close> by code_simp
  show ?thesis using trailing_text_kept [OF 1 2 3] by (simp add: group_def replace_def)
qed

text \<open>
  C9. When the transform succeeds, every line of its output matches the version pattern
  exactly as the line of the input at the same place does, a line of the input that
  matches it is the same line in the output, \<^verbatim>\<open>findall\<close> returns the same list on the
  output as on the input, and so the script reads the same version from both.
\<close>

theorem version_lines_kept:
  assumes "transform data = Inr out"
  shows "length (lines_of out) = length (lines_of data) \<and>
    (\<forall>i<length (lines_of data).
       match_atoms versionPattern True (lines_of out ! i) =
         match_atoms versionPattern True (lines_of data ! i) \<and>
       (match_atoms versionPattern True (lines_of data ! i) \<noteq> None \<longrightarrow>
          lines_of out ! i = lines_of data ! i)) \<and>
    findall versionPattern out = findall versionPattern data \<and>
    version out = version data"
proof -
  from transform_lines [OF assms] obtain v where
    l: "lines_of out = map (rewrite_line dependencyPattern (replace v)) (lines_of data)"
    by blast
  have "lines_of out ! i = lines_of data ! i"
    if "i < length (lines_of data)"
      and "match_atoms versionPattern True (lines_of data ! i) \<noteq> None" for i
  proof (cases "match_atoms dependencyPattern True (lines_of data ! i)")
    case None
    with that(1) show ?thesis unfolding l by (simp add: rewrite_other_line)
  next
    case (Some a)
    obtain gs r where "a = (gs, r)" by (cases a)
    with Some have "match_atoms versionPattern True (lines_of data ! i) = None"
      by (simp add: dep_line_not_version)
    with that(2) show ?thesis by simp
  qed
  moreover have "match_atoms versionPattern True (lines_of out ! i) =
      match_atoms versionPattern True (lines_of data ! i)" if "i < length (lines_of data)" for i
    using that unfolding l by (simp add: version_match_rewritten)
  moreover have "length (lines_of out) = length (lines_of data)" unfolding l by simp
  ultimately show ?thesis
    using transform_keeps_findall [OF assms] transform_keeps_version [OF assms] by blast
qed

theorem version_lines_kept_witness:
  \<open>lines_of (newData [] empty_version_manifest) ! 2 = ''version = "1.0"'' \<and>
     version (newData [] empty_version_manifest) = Inr []\<close>
proof -
  have 1: "transform empty_version_manifest = Inr (newData [] empty_version_manifest)"
    by code_simp
  have 2: "2 < length (lines_of empty_version_manifest)" by code_simp
  have 3: "match_atoms versionPattern True (lines_of empty_version_manifest ! 2) \<noteq> None"
    by code_simp
  have 4: \<open>lines_of empty_version_manifest ! 2 = ''version = "1.0"''\<close> by code_simp
  have 5: "version empty_version_manifest = Inr []" by code_simp
  from version_lines_kept [OF 1] 2 3
  have "lines_of (newData [] empty_version_manifest) ! 2 = lines_of empty_version_manifest ! 2"
    by blast
  moreover from version_lines_kept [OF 1]
  have "version (newData [] empty_version_manifest) = version empty_version_manifest"
    by blast
  ultimately show ?thesis using 4 5 by simp
qed

text \<open>
  C10. When the first line of the text that matches the version pattern has the empty
  string as its group, the script reads the empty string as the version, the transform
  succeeds, and every line that matches the dependency pattern becomes the declaration
  with its identifier, its path and the version \<^verbatim>\<open>""\<close>, followed by the rest of the line.
\<close>

theorem empty_version_accepted:
  assumes "i < length (lines_of data)"
    and "match_atoms versionPattern True (lines_of data ! i) = Some (gs, rest)"
    and "group gs 1 = []"
    and "\<forall>j<i. match_atoms versionPattern True (lines_of data ! j) = None"
  shows \<open>version data = Inr [] \<and>
    (\<exists>out. transform data = Inr out \<and>
       (\<forall>k<length (lines_of data). \<forall>ds r.
          match_atoms dependencyPattern True (lines_of data ! k) = Some (ds, r) \<longrightarrow>
          lines_of out ! k =
            group ds 1 @ '' = { path = "'' @ group ds 2 @ ''", version = "" }'' @ r))\<close>
proof -
  have v: "version data = Inr []"
    using version_first_line [OF assms(1,2,4)] assms(3) by simp
  have \<open>lines_of (newData [] data) ! k =
      group ds 1 @ '' = { path = "'' @ group ds 2 @ ''", version = "" }'' @ r\<close>
    if "k < length (lines_of data)"
      and "match_atoms dependencyPattern True (lines_of data ! k) = Some (ds, r)" for k ds r
    unfolding nth_lines_of_transform [OF v that(1)] using that(2)
    by (simp add: rewrite_line_def replace_def)
  with transform_version [OF v] v show ?thesis by blast
qed

theorem empty_version_accepted_witness:
  \<open>version empty_version_manifest = Inr [] \<and>
     (\<exists>out. transform empty_version_manifest = Inr out \<and>
        lines_of out ! 3 = ''foo = { path = "../foo", version = "" }'')\<close>
proof -
  have 1: "1 < length (lines_of empty_version_manifest)" by code_simp
  have 2: "match_atoms versionPattern True (lines_of empty_version_manifest ! 1) = Some ([''''], [])"
    by code_simp
  have 3: "group [''''] 1 = []" by (simp add: group_def)
  have "match_atoms versionPattern True (lines_of empty_version_manifest ! 0) = None"
    by code_simp
  then have 4: "\<forall>j<1. match_atoms versionPattern True (lines_of empty_version_manifest ! j) = None"
    by simp
  have 5: "3 < length (lines_of empty_version_manifest)" by code_simp
  have 6: \<open>match_atoms dependencyPattern True (lines_of empty_version_manifest ! 3) =
    Some ([''foo'', ''../foo'', ''2.3.0''], [])\<close> by code_simp
  from empty_version_accepted [OF 1 2 3 4] obtain out where
    v: "version empty_version_manifest = Inr []"
    and t: "transform empty_version_manifest = Inr out"
    and a: \<open>\<forall>k<length (lines_of empty_version_manifest). \<forall>ds r.
          match_atoms dependencyPattern True (lines_of empty_version_manifest ! k) = Some (ds, r) \<longrightarrow>
          lines_of out ! k =
            group ds 1 @ '' = { path = "'' @ group ds 2 @ ''", version = "" }'' @ r\<close>
    by blast
  from a 5 6 have \<open>lines_of out ! 3 =
    group [''foo'', ''../foo'', ''2.3.0''] 1 @ '' = { path = "'' @
    group [''foo'', ''../foo'', ''2.3.0''] 2 @ ''", version = "" }'' @ []\<close> by blast
  then have \<open>lines_of out ! 3 = ''foo = { path = "../foo", version = "" }''\<close>
    by (simp add: group_def)
  with v t show ?thesis by blast
qed

end
